theory Spec2Isabelle
  imports Main "HOL-Library.Char_ord" "HOL-Library.Word" "HOL-Library.Multiset"
    "HOL-Library.Sublist" "HOL-Library.Product_Lexorder"
begin

section \<open>The Huffman trie of compression_utils.py\<close>

text \<open>
  Python strings are modelled by \<open>string\<close>; single characters are compared by code
  point, which is the order \<open>HOL-Library.Char_ord\<close> puts on \<open>char\<close>.
  Python integers are \<open>int\<close>.
\<close>

definition ETB_CHAR :: char where
  "ETB_CHAR = CHR 0x17"

text \<open>
  \<open>class HuffmanNode\<close>: a character, a frequency and two optional children
  (\<open>None\<close> is Python's \<open>None\<close>).
\<close>

datatype HuffmanNode =
  HuffmanNode (char: char) (freq: int)
    (zero_child: "HuffmanNode option") (one_child: "HuffmanNode option")

definition is_leaf :: "HuffmanNode \<Rightarrow> bool" where
  "is_leaf self = (zero_child self = None \<and> one_child self = None)"

text \<open>\<open>HuffmanNode.__lt__\<close>: by frequency, ties by character.\<close>

definition lt :: "HuffmanNode \<Rightarrow> HuffmanNode \<Rightarrow> bool" where
  "lt self other =
     (if freq self = freq other then char self < char other
      else freq self < freq other)"

text \<open>
  \<open>HuffmanNode.__eq__\<close>: by frequency alone. No method of the codec and no operation
  of the queue calls it.
\<close>

definition eq :: "HuffmanNode \<Rightarrow> HuffmanNode \<Rightarrow> bool" where
  "eq self other = (freq self = freq other)"

section \<open>queue.PriorityQueue, a binary heap on a list (module heapq)\<close>

text \<open>
  \<open>PriorityQueue.put\<close> is \<open>heapq.heappush\<close> and \<open>PriorityQueue.get\<close> is
  \<open>heapq.heappop\<close> on the list \<open>self.queue\<close>; both compare items with \<open>__lt__\<close>
  only. The queue is unbounded, so \<open>put\<close> never blocks; \<open>get\<close> on an empty queue
  blocks forever, which is the value \<open>None\<close> here.
\<close>

type_synonym PriorityQueue = "HuffmanNode list"

text \<open>
  The loop of \<open>heapq._siftdown\<close>: move \<open>newitem\<close> from \<open>pos\<close> towards \<open>startpos\<close>,
  shifting every greater parent one level down.
\<close>

function siftdown_loop ::
  "HuffmanNode list \<Rightarrow> nat \<Rightarrow> nat \<Rightarrow> HuffmanNode \<Rightarrow> HuffmanNode list" where
  "siftdown_loop heap startpos pos newitem =
     (if pos > startpos then
        (let parentpos = (pos - 1) div 2;
             parent = heap ! parentpos
         in if lt newitem parent
            then siftdown_loop (heap[pos := parent]) startpos parentpos newitem
            else heap[pos := newitem])
      else heap[pos := newitem])"
  by pat_completeness auto
termination
  by (relation "measure (\<lambda>(heap, startpos, pos, newitem). pos)") auto

declare siftdown_loop.simps [simp del]

definition siftdown :: "HuffmanNode list \<Rightarrow> nat \<Rightarrow> nat \<Rightarrow> HuffmanNode list" where
  "siftdown heap startpos pos = siftdown_loop heap startpos pos (heap ! pos)"

text \<open>
  The loop of \<open>heapq._siftup\<close>: the smaller child moves up into the hole at \<open>pos\<close>
  until the hole is at a position without children.
\<close>

function siftup_loop ::
  "HuffmanNode list \<Rightarrow> nat \<Rightarrow> nat \<Rightarrow> HuffmanNode list \<times> nat" where
  "siftup_loop heap endpos pos =
     (let childpos = 2 * pos + 1
      in if childpos < endpos then
           (let rightpos = childpos + 1;
                childpos = (if rightpos < endpos \<and> \<not> lt (heap ! childpos) (heap ! rightpos)
                            then rightpos else childpos)
            in siftup_loop (heap[pos := heap ! childpos]) endpos childpos)
         else (heap, pos))"
  by pat_completeness auto
termination
  by (relation "measure (\<lambda>(heap, endpos, pos). endpos - pos)") (auto simp: Let_def)

declare siftup_loop.simps [simp del]

definition siftup :: "HuffmanNode list \<Rightarrow> nat \<Rightarrow> HuffmanNode list" where
  "siftup heap pos =
     (let endpos = length heap;
          startpos = pos;
          newitem = heap ! pos;
          (heap, pos) = siftup_loop heap endpos pos
      in siftdown (heap[pos := newitem]) startpos pos)"

definition heappush :: "HuffmanNode list \<Rightarrow> HuffmanNode \<Rightarrow> HuffmanNode list" where
  "heappush heap item =
     (let heap = heap @ [item] in siftdown heap 0 (length heap - 1))"

text \<open>\<open>heappop\<close> is only called on a non-empty list (\<open>get\<close> checks the size first).\<close>

definition heappop :: "HuffmanNode list \<Rightarrow> HuffmanNode \<times> HuffmanNode list" where
  "heappop heap =
     (let lastelt = last heap;
          heap = butlast heap
      in if heap \<noteq> [] then
           (let returnitem = heap ! 0;
                heap = heap[0 := lastelt]
            in (returnitem, siftup heap 0))
         else (lastelt, heap))"

definition qsize :: "PriorityQueue \<Rightarrow> nat" where
  "qsize q = length q"

definition put :: "PriorityQueue \<Rightarrow> HuffmanNode \<Rightarrow> PriorityQueue" where
  "put q item = heappush q item"

definition get :: "PriorityQueue \<Rightarrow> (HuffmanNode \<times> PriorityQueue) option" where
  "get q = (if qsize q = 0 then None else Some (heappop q))"

text \<open>The heap operations keep the size of the list, up to the item added or removed.\<close>

lemma length_siftdown_loop [simp]:
  "length (siftdown_loop heap startpos pos newitem) = length heap"
  by (induction heap startpos pos newitem rule: siftdown_loop.induct)
    (subst siftdown_loop.simps, simp add: Let_def)

lemma length_siftup_loop [simp]:
  "length (fst (siftup_loop heap endpos pos)) = length heap"
  by (induction heap endpos pos rule: siftup_loop.induct)
    (subst siftup_loop.simps, simp add: Let_def)

lemma length_siftup [simp]: "length (siftup heap pos) = length heap"
  by (simp add: siftup_def siftdown_def Let_def split: prod.split)
    (metis fst_conv length_siftup_loop)

lemma length_heappush [simp]: "length (heappush heap item) = Suc (length heap)"
  by (simp add: heappush_def siftdown_def Let_def)

lemma length_heappop [simp]:
  "heap \<noteq> [] \<Longrightarrow> length (snd (heappop heap)) = length heap - 1"
  by (cases heap rule: rev_cases) (simp_all add: heappop_def Let_def)

lemma get_length:
  "get q = Some (item, q') \<Longrightarrow> length q = Suc (length q')"
  using length_heappop [of q]
  by (cases q) (auto simp: get_def qsize_def split: if_splits)

section \<open>Building the trie and the encoding map\<close>

text \<open>
  \<open>ReusableHuffman.grow_trie\<close>: merge the two least nodes until one is left. The result
  is the root together with the queue, which the method leaves empty.
\<close>

function grow_trie :: "PriorityQueue \<Rightarrow> (HuffmanNode \<times> PriorityQueue) option" where
  "grow_trie trie =
     (if qsize trie > 1 then
        (case get trie of
           None \<Rightarrow> None
         | Some (zero_item, trie1) \<Rightarrow>
             (case get trie1 of
                None \<Rightarrow> None
              | Some (one_item, trie2) \<Rightarrow>
                  (let new_char = (if char zero_item > char one_item
                                   then char one_item else char zero_item);
                       node = HuffmanNode new_char (freq zero_item + freq one_item)
                                (Some zero_item) (Some one_item)
                   in grow_trie (put trie2 node))))
      else get trie)"
  by pat_completeness auto
termination
  by (relation "measure length") (auto simp: put_def dest!: get_length)

declare grow_trie.simps [simp del]

text \<open>\<open>ReusableHuffman.create_encoding_map\<close>; \<open>dict.update\<close> is map override.\<close>

function create_encoding_map :: "HuffmanNode option \<Rightarrow> string \<Rightarrow> (char \<rightharpoonup> string)" where
  "create_encoding_map None byte = Map.empty"
| "create_encoding_map (Some node) byte =
     (if is_leaf node then [char node \<mapsto> byte]
      else (Map.empty ++ create_encoding_map (zero_child node) (byte @ ''0''))
             ++ create_encoding_map (one_child node) (byte @ ''1''))"
  by pat_completeness auto
termination
proof (relation "measure (\<lambda>(node, byte). size_option size node)")
  show "wf (measure (\<lambda>(node, byte). size_option size node))" by simp
next
  fix node :: HuffmanNode and byte :: string
  show "((zero_child node, byte @ ''0''), (Some node, byte))
          \<in> measure (\<lambda>(node, byte). size_option size node)"
    by (cases node) simp
  show "((one_child node, byte @ ''1''), (Some node, byte))
          \<in> measure (\<lambda>(node, byte). size_option size node)"
    by (cases node) simp
qed

section \<open>The codec\<close>

text \<open>
  The fields of a \<open>ReusableHuffman\<close> instance. \<open>trie_root\<close> is \<open>None\<close> when the
  attribute \<open>_trie_root\<close> was never assigned.
\<close>

record ReusableHuffman =
  encoding_map :: "char \<rightharpoonup> string"
  leaves :: PriorityQueue
  trie_root :: "HuffmanNode option"

text \<open>\<open>str.count\<close> of a single character.\<close>

definition count :: "string \<Rightarrow> char \<Rightarrow> int" where
  "count corpus item = int (count_list corpus item)"

text \<open>
  The loop \<open>for item in chars\<close> of the constructor. \<open>chars\<close> is the set of the
  corpus' characters in the order in which Python iterates over it, an order the
  language leaves open: the constructor takes it as an argument.
\<close>

fun put_leaves :: "PriorityQueue \<Rightarrow> char list \<Rightarrow> string \<Rightarrow> PriorityQueue" where
  "put_leaves queue [] corpus = queue"
| "put_leaves queue (item # chars) corpus =
     (let letter_count = count corpus item;
          node = HuffmanNode item letter_count None None
      in put_leaves (put queue node) chars corpus)"

definition iteration_of :: "char list \<Rightarrow> string \<Rightarrow> bool" where
  "iteration_of chars corpus = (distinct chars \<and> set chars = set corpus)"

text \<open>\<open>ReusableHuffman.__init__\<close>; \<open>None\<close> if it does not return.\<close>

definition init :: "char list \<Rightarrow> string \<Rightarrow> ReusableHuffman option" where
  "init chars corpus =
     (let etb_node = HuffmanNode ETB_CHAR 1 None None;
          queue = put [] etb_node
      in if length corpus > 0 then
           (let queue = put_leaves queue chars corpus
            in case grow_trie queue of
                 None \<Rightarrow> None
               | Some (root, queue) \<Rightarrow>
                   Some \<lparr>encoding_map = create_encoding_map (Some root) [],
                         leaves = queue, trie_root = Some root\<rparr>)
         else Some \<lparr>encoding_map = [ETB_CHAR \<mapsto> ''0''],
                    leaves = queue, trie_root = None\<rparr>)"

text \<open>\<open>copy.deepcopy\<close> of a dictionary of strings is the same dictionary.\<close>

definition get_encoding_map :: "ReusableHuffman \<Rightarrow> (char \<rightharpoonup> string)" where
  "get_encoding_map self = encoding_map self"

subsection \<open>Bytes and bit strings\<close>

text \<open>
  Modelled from the spec: the module byte_utils is not among the sources. Section 6 of
  the specification gives its two functions: \<open>byte_to_bits\<close> turns a byte into its 8
  bits, most significant first, and \<open>bits_to_bytes\<close> turns each 8-character bit string
  of a list into one byte, in the same bit order.
\<close>

definition byte_to_bitstring :: "8 word \<Rightarrow> string" where
  "byte_to_bitstring b =
     map (\<lambda>i. if bit b i then CHR ''1'' else CHR ''0'') [7, 6, 5, 4, 3, 2, 1, 0]"

definition bitstring_to_byte :: "string \<Rightarrow> 8 word" where
  "bitstring_to_byte s =
     foldl (\<lambda>acc c. 2 * acc + (if c = CHR ''1'' then 1 else 0)) 0 s"

definition bitstrings_to_bytes :: "string list \<Rightarrow> 8 word list" where
  "bitstrings_to_bytes bitstrs = map bitstring_to_byte bitstrs"

subsection \<open>Compression\<close>

text \<open>
  The inner loop \<open>for num in encode_map[char]\<close>: the state is the bit string being
  filled and the list of the full ones.
\<close>

fun add_bits :: "string \<Rightarrow> string \<times> string list \<Rightarrow> string \<times> string list" where
  "add_bits [] (bitstr, final_bitstr) = (bitstr, final_bitstr)"
| "add_bits (num # code) (bitstr, final_bitstr) =
     (if length bitstr = 8
      then add_bits code ([] @ [num], final_bitstr @ [bitstr])
      else add_bits code (bitstr @ [num], final_bitstr))"

text \<open>The outer loop \<open>for char in message\<close>.\<close>

fun encode_chars ::
  "(char \<rightharpoonup> string) \<Rightarrow> string \<Rightarrow> string \<times> string list \<Rightarrow> string \<times> string list" where
  "encode_chars encode_map [] st = st"
| "encode_chars encode_map (c # message) st =
     (case encode_map c of
        Some code \<Rightarrow> encode_chars encode_map message (add_bits code st)
      | None \<Rightarrow> encode_chars encode_map message st)"

text \<open>
  The padding loop \<open>while len(bitstr) != 8\<close>. It is entered below 8 only, where its
  condition is the same as \<open>len(bitstr) < 8\<close>.
\<close>

function pad_loop :: "string \<Rightarrow> string" where
  "pad_loop bitstr = (if length bitstr < 8 then pad_loop (bitstr @ ''0'') else bitstr)"
  by pat_completeness auto
termination
  by (relation "measure (\<lambda>bitstr. 8 - length bitstr)") auto

declare pad_loop.simps [simp del]

definition compress_message :: "ReusableHuffman \<Rightarrow> string \<Rightarrow> 8 word list" where
  "compress_message self message =
     (let encode_map = get_encoding_map self;
          message = message @ [ETB_CHAR];
          (bitstr, final_bitstr) = encode_chars encode_map message ([], []);
          final_bitstr = (if length bitstr < 8
                          then final_bitstr @ [pad_loop bitstr] else final_bitstr)
      in bitstrings_to_bytes final_bitstr)"

subsection \<open>Decompression\<close>

datatype error = UninitializedCodec

text \<open>The loop \<open>for bit in encoded_msg\<close>, with its early return at the sentinel.\<close>

fun decode_bits :: "HuffmanNode \<Rightarrow> HuffmanNode \<Rightarrow> string \<Rightarrow> string \<Rightarrow> string" where
  "decode_bits root node [] decoded_msg = decoded_msg"
| "decode_bits root node (b # encoded_msg) decoded_msg =
     (let node = (if b = CHR ''0'' \<and> zero_child node \<noteq> None then the (zero_child node)
                  else if b = CHR ''1'' \<and> one_child node \<noteq> None then the (one_child node)
                  else node)
      in if is_leaf node then
           (if char node = ETB_CHAR then decoded_msg
            else decode_bits root root encoded_msg (decoded_msg @ [char node]))
         else decode_bits root node encoded_msg decoded_msg)"

text \<open>
  \<open>ReusableHuffman.decompress\<close>. Reading \<open>self._trie_root\<close> raises when the attribute
  was never assigned: the error \<open>UninitializedCodec\<close>.
\<close>

definition decompress :: "ReusableHuffman \<Rightarrow> 8 word list \<Rightarrow> error + string" where
  "decompress self compressed_msg =
     (let encoded_msg = concat (map byte_to_bitstring compressed_msg)
      in case trie_root self of
           None \<Rightarrow> Inl UninitializedCodec
         | Some root \<Rightarrow> Inr (decode_bits root root encoded_msg []))"

section \<open>The leaves of a trie\<close>

text \<open>
  The leaves of a trie with their paths from the root, in the order in which
  \<open>create_encoding_map\<close> visits them (the zero child first).
\<close>

function leaf_paths :: "HuffmanNode option \<Rightarrow> string \<Rightarrow> (string \<times> HuffmanNode) list" where
  "leaf_paths None byte = []"
| "leaf_paths (Some node) byte =
     (if is_leaf node then [(byte, node)]
      else leaf_paths (zero_child node) (byte @ ''0'')
             @ leaf_paths (one_child node) (byte @ ''1''))"
  by pat_completeness auto
termination
proof (relation "measure (\<lambda>(node, byte). size_option size node)")
  show "wf (measure (\<lambda>(node, byte). size_option size node))" by simp
next
  fix node :: HuffmanNode and byte :: string
  show "((zero_child node, byte @ ''0''), (Some node, byte))
          \<in> measure (\<lambda>(node, byte). size_option size node)"
    by (cases node) simp
  show "((one_child node, byte @ ''1''), (Some node, byte))
          \<in> measure (\<lambda>(node, byte). size_option size node)"
    by (cases node) simp
qed

section \<open>Notions for the properties\<close>

text \<open>
  The encoding map of the codec constructed from a corpus; \<open>None\<close> if the constructor
  does not return.
\<close>

definition construct :: "char list \<Rightarrow> string \<Rightarrow> (char \<rightharpoonup> string) option" where
  "construct chars corpus = map_option get_encoding_map (init chars corpus)"

text \<open>
  An encoding map is a prefix code when, for two different characters, the code word
  of the one is never a prefix of (in particular never equal to) that of the other.
\<close>

definition prefix_code :: "(char \<rightharpoonup> string) \<Rightarrow> bool" where
  "prefix_code m =
     (\<forall>c1 c2 w1 w2. c1 \<noteq> c2 \<and> m c1 = Some w1 \<and> m c2 = Some w2 \<longrightarrow> \<not> prefix w1 w2)"

text \<open>The leaves below a node, from the zero side to the one side.\<close>

definition leaf_nodes :: "HuffmanNode \<Rightarrow> HuffmanNode list" where
  "leaf_nodes node = map snd (leaf_paths (Some node) [])"

text \<open>The leaves below the nodes of a queue.\<close>

definition leaves_mset :: "HuffmanNode multiset \<Rightarrow> HuffmanNode multiset" where
  "leaves_mset M = (\<Sum>node\<in>#M. mset (leaf_nodes node))"

text \<open>
  \<open>__lt__\<close> compares the pairs of frequency and character in the lexicographic order.
\<close>

definition key :: "HuffmanNode \<Rightarrow> int \<times> char" where
  "key node = (freq node, char node)"

text \<open>
  The heap invariant of heapq: no item is less than the item at its parent position.
\<close>

definition parent :: "nat \<Rightarrow> nat" where
  "parent i = (i - 1) div 2"

definition heap_inv :: "HuffmanNode list \<Rightarrow> bool" where
  "heap_inv h = (\<forall>i. 0 < i \<and> i < length h \<longrightarrow> key (h ! parent i) \<le> key (h ! i))"

text \<open>
  The invariant of the loop of \<open>_siftdown\<close>, which holds \<open>x\<close> for the position
  \<open>pos\<close>: with \<open>x\<close> at \<open>pos\<close> the heap invariant holds except between \<open>pos\<close> and its
  parent, and the items below \<open>pos\<close> are not less than the item above it.
\<close>

definition up_inv :: "HuffmanNode list \<Rightarrow> nat \<Rightarrow> HuffmanNode \<Rightarrow> bool" where
  "up_inv h pos x =
     (pos < length h
      \<and> (\<forall>i. 0 < i \<and> i < length h \<and> i \<noteq> pos \<longrightarrow>
            key (h[pos := x] ! parent i) \<le> key (h[pos := x] ! i))
      \<and> (\<forall>i. 0 < i \<and> i < length h \<and> parent i = pos \<and> 0 < pos \<longrightarrow>
            key (h ! parent pos) \<le> key (h ! i)))"

text \<open>
  The invariant of the loop of \<open>_siftup\<close>, where the position \<open>pos\<close> is a hole: the
  heap invariant holds where the hole is not involved, and the items below the hole are
  not less than the item above it.
\<close>

definition down_inv :: "HuffmanNode list \<Rightarrow> nat \<Rightarrow> bool" where
  "down_inv h pos =
     (pos < length h
      \<and> (\<forall>i. 0 < i \<and> i < length h \<and> i \<noteq> pos \<and> parent i \<noteq> pos \<longrightarrow>
            key (h ! parent i) \<le> key (h ! i))
      \<and> (\<forall>i. 0 < i \<and> i < length h \<and> parent i = pos \<and> 0 < pos \<longrightarrow>
            key (h ! parent pos) \<le> key (h ! i)))"

text \<open>
  The nodes of a queue on which \<open>__lt__\<close> is as good as a total order: the character
  tells the nodes apart, every frequency is at least 1, and no node is there twice but
  the sentinel leaf of frequency 1, which may be there twice.
\<close>

definition queue_inv :: "HuffmanNode list \<Rightarrow> bool" where
  "queue_inv q =
     (inj_on char (set q) \<and> (\<forall>x\<in>set q. 1 \<le> freq x)
      \<and> (\<forall>x. count_list q x \<le> (if x = HuffmanNode ETB_CHAR 1 None None then 2 else 1)))"

section \<open>The constructor returns\<close>

lemma get_nonempty: "q \<noteq> [] \<Longrightarrow> \<exists>item q'. get q = Some (item, q')"
  by (cases "heappop q") (simp add: get_def qsize_def)

lemma length_put [simp]: "length (put q item) = Suc (length q)"
  by (simp add: put_def)

lemma grow_trie_returns: "trie \<noteq> [] \<Longrightarrow> \<exists>root q. grow_trie trie = Some (root, q)"
proof (induction "length trie" arbitrary: trie rule: less_induct)
  case less
  show ?case
  proof (cases "qsize trie > 1")
    case False
    with get_nonempty [OF less.prems] show ?thesis
      by (subst grow_trie.simps) auto
  next
    case True
    from get_nonempty [OF less.prems] obtain z t1 where g1: "get trie = Some (z, t1)"
      by blast
    from get_length [OF g1] True have "t1 \<noteq> []"
      by (auto simp: qsize_def)
    from get_nonempty [OF this] obtain o1 t2 where g2: "get t1 = Some (o1, t2)"
      by blast
    define node where "node = HuffmanNode (if char z > char o1 then char o1 else char z)
      (freq z + freq o1) (Some z) (Some o1)"
    have "length (put t2 node) < length trie"
      using get_length [OF g1] get_length [OF g2] by simp
    moreover have "put t2 node \<noteq> []"
      using length_put [of t2 node] by (metis length_0_conv nat.distinct(1))
    ultimately have "\<exists>root q. grow_trie (put t2 node) = Some (root, q)"
      by (rule less.hyps)
    then show ?thesis
      using True g1 g2 by (subst grow_trie.simps) (simp add: node_def Let_def)
  qed
qed

lemma length_put_leaves [simp]:
  "length (put_leaves q chars corpus) = length q + length chars"
  by (induction chars arbitrary: q) (simp_all add: Let_def)

lemma init_returns: "\<exists>self. init chars corpus = Some self"
proof (cases "corpus = []")
  case True
  then show ?thesis by (simp add: init_def Let_def)
next
  case False
  have "put_leaves (put [] (HuffmanNode ETB_CHAR 1 None None)) chars corpus \<noteq> []"
    using length_put_leaves [of "put [] (HuffmanNode ETB_CHAR 1 None None)" chars corpus]
    by (metis add_is_0 length_0_conv length_put nat.distinct(1))
  from grow_trie_returns [OF this] show ?thesis
    using False by (auto simp: init_def Let_def)
qed

lemma init_trie_root:
  "init chars corpus = Some self \<Longrightarrow> (trie_root self = None) = (corpus = [])"
  by (auto simp: init_def Let_def split: if_splits option.splits)

lemma init_empty:
  "init chars [] = Some \<lparr>encoding_map = [ETB_CHAR \<mapsto> ''0''],
     leaves = [HuffmanNode ETB_CHAR 1 None None], trie_root = None\<rparr>"
  by (simp add: init_def Let_def put_def heappush_def siftdown_def siftdown_loop.simps)

section \<open>The empty corpus\<close>

text \<open>
  C9. The codec built from the empty corpus has the encoding map with the single entry
  that takes the sentinel to the one-bit code \<open>0\<close>.
\<close>

theorem empty_corpus_encoding_map:
  "\<exists>self. init chars [] = Some self
     \<and> get_encoding_map self = [ETB_CHAR \<mapsto> ''0'']
     \<and> dom (get_encoding_map self) = {ETB_CHAR}
     \<and> get_encoding_map self ETB_CHAR = Some ''0''"
  by (simp add: init_empty get_encoding_map_def)

text \<open>
  C8. The constructor returns for every corpus, and it leaves the trie unbuilt exactly
  when the corpus is empty. On a codec without a trie \<open>decompress\<close> fails with
  \<open>UninitializedCodec\<close>, whatever the bytes; on a codec with a trie it returns a string.
\<close>

theorem decompress_uninitialized:
  "\<exists>self. init chars corpus = Some self \<and>
     ((trie_root self = None) = (corpus = [])) \<and>
     (\<forall>compressed_msg.
        (trie_root self = None \<longrightarrow>
           decompress self compressed_msg = Inl UninitializedCodec) \<and>
        (trie_root self \<noteq> None \<longrightarrow>
           (\<exists>s. decompress self compressed_msg = Inr s)))"
proof -
  from init_returns obtain self where s: "init chars corpus = Some self"
    by blast
  show ?thesis
    using s init_trie_root [OF s]
    by (auto simp: decompress_def Let_def split: option.splits)
qed

theorem decompress_uninitialized_witness:
  "\<exists>self. init [] [] = Some self \<and> trie_root self = None
     \<and> decompress self [0xA3, 0xE0] = Inl UninitializedCodec"
  using decompress_uninitialized [of "[]" "[]"] by auto

text \<open>
  C3. On the codec of the empty corpus, compressing the empty message gives the single
  byte 0, and decompressing that byte does not return the empty string: it fails, since
  the constructor never assigned the trie root.
\<close>

theorem empty_corpus_round_trip_fails:
  "\<exists>self. init [] [] = Some self
     \<and> compress_message self [] = [0]
     \<and> decompress self (compress_message self []) = Inl UninitializedCodec"
proof -
  have "case init [] [] of
          None \<Rightarrow> False
        | Some self \<Rightarrow>
            compress_message self [] = [0]
            \<and> decompress self (compress_message self []) = Inl UninitializedCodec"
    by code_simp
  then show ?thesis
    by (auto split: option.splits)
qed

section \<open>Compression\<close>

lemma encode_chars_append:
  "encode_chars m (xs @ ys) st = encode_chars m ys (encode_chars m xs st)"
  by (induction xs arbitrary: st) (auto split: option.splits)

lemma encode_chars_filter:
  "encode_chars m (filter (\<lambda>c. c \<in> dom m) message) st = encode_chars m message st"
  by (induction message arbitrary: st) (auto split: option.splits)

text \<open>
  C7. \<open>compress_message\<close> is a total function, and the characters of the message that
  have no entry in the encoding map add nothing to its result: the message compresses
  to the same bytes as the message without them.
\<close>

theorem compress_message_unknown_chars:
  "compress_message self message =
     compress_message self (filter (\<lambda>c. c \<in> dom (get_encoding_map self)) message)"
proof -
  let ?m = "get_encoding_map self"
  have "encode_chars ?m (filter (\<lambda>c. c \<in> dom ?m) message @ [ETB_CHAR]) ([], [])
      = encode_chars ?m (message @ [ETB_CHAR]) ([], [])"
    by (simp only: encode_chars_append encode_chars_filter)
  then show ?thesis
    by (simp only: compress_message_def Let_def)
qed

text \<open>
  C1. The codec of the corpus \<open>A\<close> gives the sentinel the code \<open>0\<close> and \<open>A\<close> the code
  \<open>1\<close>. The message of seven \<open>A\<close> has 8 bits with its sentinel; \<open>compress_message\<close>
  keeps a last bit string of exactly 8 bits out of its result, which is empty, and
  \<open>decompress\<close> of it is the empty string, not the message.
\<close>

theorem round_trip_fails_on_full_last_byte:
  "\<exists>self. init ''A'' ''A'' = Some self
     \<and> compress_message self ''AAAAAAA'' = []
     \<and> decompress self (compress_message self ''AAAAAAA'') = Inr []"
proof -
  have "case init ''A'' ''A'' of
          None \<Rightarrow> False
        | Some self \<Rightarrow>
            compress_message self ''AAAAAAA'' = []
            \<and> decompress self (compress_message self ''AAAAAAA'') = Inr []"
    by code_simp
  then show ?thesis
    by (auto split: option.splits)
qed

text \<open>
  C2. For the same codec and message, the code words of the message followed by the
  code word of the sentinel are the 8 bits \<open>11111110\<close>, while the bytes that
  \<open>compress_message\<close> returns hold no bit at all.
\<close>

theorem wire_format_fails_on_full_last_byte:
  "\<exists>self. init ''A'' ''A'' = Some self
     \<and> concat (map (\<lambda>c. the (get_encoding_map self c)) (''AAAAAAA'' @ [ETB_CHAR]))
         = ''11111110''
     \<and> concat (map byte_to_bitstring (compress_message self ''AAAAAAA'')) = []"
proof -
  have "case init ''A'' ''A'' of
          None \<Rightarrow> False
        | Some self \<Rightarrow>
            concat (map (\<lambda>c. the (get_encoding_map self c)) (''AAAAAAA'' @ [ETB_CHAR]))
              = ''11111110''
            \<and> concat (map byte_to_bitstring (compress_message self ''AAAAAAA'')) = []"
    by code_simp
  then show ?thesis
    by (auto split: option.splits)
qed

section \<open>The worked example\<close>

lemma iteration_ABBBCC:
  assumes "iteration_of chars ''ABBBCC''"
  shows "chars \<in> {''ABC'', ''ACB'', ''BAC'', ''BCA'', ''CAB'', ''CBA''}"
proof -
  from assms have d: "distinct chars" and s: "set chars = {CHR ''A'', CHR ''B'', CHR ''C''}"
    by (auto simp: iteration_of_def)
  have "card (set chars) = 3"
    unfolding s by simp
  with d have "length chars = 3"
    by (simp add: distinct_card)
  then obtain x y z where c: "chars = [x, y, z]"
    by (auto simp: length_Suc_conv numeral_3_eq_3)
  have "x \<in> set chars" "y \<in> set chars" "z \<in> set chars"
    by (simp_all add: c)
  then have m: "x \<in> {CHR ''A'', CHR ''B'', CHR ''C''}" "y \<in> {CHR ''A'', CHR ''B'', CHR ''C''}"
    "z \<in> {CHR ''A'', CHR ''B'', CHR ''C''}"
    unfolding s by blast+
  from d have ne: "x \<noteq> y" "x \<noteq> z" "y \<noteq> z"
    by (simp_all add: c)
  from m ne show ?thesis
    unfolding c by (elim insertE emptyE) simp_all
qed

lemma case_option_ex:
  "(case x of None \<Rightarrow> False | Some y \<Rightarrow> P y) \<Longrightarrow> \<exists>y. x = Some y \<and> P y"
  by (cases x) simp_all

text \<open>
  C6. For the corpus \<open>ABBBCC\<close>, in whatever order the constructor iterates over its
  characters, the trie has the four leaves \<open>B\<close> with frequency 3 at \<open>0\<close>, the sentinel
  with frequency 1 at \<open>100\<close>, \<open>A\<close> with frequency 1 at \<open>101\<close> and \<open>C\<close> with
  frequency 2 at \<open>11\<close>; the message \<open>ABBBCC\<close> compresses to the two bytes with the bits
  \<open>10100011\<close> and \<open>11100000\<close>, and these decompress to \<open>ABBBCC\<close>.
\<close>

theorem worked_example:
  assumes "iteration_of chars ''ABBBCC''"
  shows "\<exists>self. init chars ''ABBBCC'' = Some self
     \<and> map (\<lambda>(byte, leaf). (char leaf, freq leaf, byte)) (leaf_paths (trie_root self) [])
         = [(CHR ''B'', 3, ''0''), (ETB_CHAR, 1, ''100''),
            (CHR ''A'', 1, ''101''), (CHR ''C'', 2, ''11'')]
     \<and> map (get_encoding_map self) (ETB_CHAR # ''ABC'')
         = [Some ''100'', Some ''101'', Some ''0'', Some ''11'']
     \<and> compress_message self ''ABBBCC'' = bitstrings_to_bytes [''10100011'', ''11100000'']
     \<and> map byte_to_bitstring (compress_message self ''ABBBCC'')
         = [''10100011'', ''11100000'']
     \<and> decompress self (bitstrings_to_bytes [''10100011'', ''11100000''])
         = Inr ''ABBBCC''"
proof -
  let ?P = "\<lambda>chars. case init chars ''ABBBCC'' of
      None \<Rightarrow> False
    | Some self \<Rightarrow>
        map (\<lambda>(byte, leaf). (char leaf, freq leaf, byte)) (leaf_paths (trie_root self) [])
          = [(CHR ''B'', 3, ''0''), (ETB_CHAR, 1, ''100''),
             (CHR ''A'', 1, ''101''), (CHR ''C'', 2, ''11'')]
        \<and> map (get_encoding_map self) (ETB_CHAR # ''ABC'')
            = [Some ''100'', Some ''101'', Some ''0'', Some ''11'']
        \<and> compress_message self ''ABBBCC''
            = bitstrings_to_bytes [''10100011'', ''11100000'']
        \<and> map byte_to_bitstring (compress_message self ''ABBBCC'')
            = [''10100011'', ''11100000'']
        \<and> decompress self (bitstrings_to_bytes [''10100011'', ''11100000''])
            = Inr ''ABBBCC''"
  from iteration_ABBBCC [OF assms]
  consider "chars = ''ABC''" | "chars = ''ACB''" | "chars = ''BAC''"
    | "chars = ''BCA''" | "chars = ''CAB''" | "chars = ''CBA''"
    by blast
  then have "?P chars"
  proof cases
    case 1 show ?thesis unfolding 1 by code_simp
  next
    case 2 show ?thesis unfolding 2 by code_simp
  next
    case 3 show ?thesis unfolding 3 by code_simp
  next
    case 4 show ?thesis unfolding 4 by code_simp
  next
    case 5 show ?thesis unfolding 5 by code_simp
  next
    case 6 show ?thesis unfolding 6 by code_simp
  qed
  then show ?thesis
    by (rule case_option_ex)
qed

theorem worked_example_witness:
  "iteration_of ''CAB'' ''ABBBCC'' \<and>
   (\<exists>self. init ''CAB'' ''ABBBCC'' = Some self
      \<and> compress_message self ''ABBBCC'' = [0xA3, 0xE0]
      \<and> decompress self [0xA3, 0xE0] = Inr ''ABBBCC'')"
proof -
  have i: "iteration_of ''CAB'' ''ABBBCC''"
    by (auto simp: iteration_of_def)
  have b: "bitstrings_to_bytes [''10100011'', ''11100000''] = [0xA3, 0xE0]"
    by code_simp
  from worked_example [OF i] obtain self where
    "init ''CAB'' ''ABBBCC'' = Some self"
    "compress_message self ''ABBBCC'' = bitstrings_to_bytes [''10100011'', ''11100000'']"
    "decompress self (bitstrings_to_bytes [''10100011'', ''11100000'']) = Inr ''ABBBCC''"
    by blast
  then show ?thesis
    unfolding b using i by blast
qed

section \<open>Prefix codes\<close>

lemma create_encoding_map_leaf_paths:
  "create_encoding_map node byte =
     map_of (rev (map (\<lambda>(p, leaf). (char leaf, p)) (leaf_paths node byte)))"
proof (induction node byte rule: create_encoding_map.induct)
  case (1 byte)
  show ?case by simp
next
  case (2 node byte)
  show ?case
  proof (cases "is_leaf node")
    case True
    then show ?thesis by (auto simp: fun_eq_iff)
  next
    case False
    with 2 show ?thesis by simp
  qed
qed

lemma leaf_paths_prefix:
  "(p, leaf) \<in> set (leaf_paths node byte) \<Longrightarrow> prefix byte p"
proof (induction node byte rule: leaf_paths.induct)
  case (1 byte)
  then show ?case by simp
next
  case (2 node byte)
  then show ?case
    by (auto split: if_splits dest: append_prefixD)
qed

lemma leaf_paths_prefix_free:
  "(p1, l1) \<in> set (leaf_paths node byte) \<Longrightarrow> (p2, l2) \<in> set (leaf_paths node byte)
     \<Longrightarrow> prefix p1 p2 \<Longrightarrow> p1 = p2 \<and> l1 = l2"
proof (induction node byte arbitrary: p1 p2 l1 l2 rule: leaf_paths.induct)
  case (1 byte)
  then show ?case by simp
next
  case (2 node byte)
  show ?case
  proof (cases "is_leaf node")
    case True
    with "2.prems" show ?thesis by simp
  next
    case False
    have cross: False
      if "(q1, k1) \<in> set (leaf_paths a (byte @ [x]))" "(q2, k2) \<in> set (leaf_paths b (byte @ [y]))"
        "x \<noteq> y" "prefix q1 q2 \<or> prefix q2 q1" for q1 q2 k1 k2 a b x y
    proof -
      from that(1) have "prefix (byte @ [x]) q1" by (rule leaf_paths_prefix)
      moreover from that(2) have "prefix (byte @ [y]) q2" by (rule leaf_paths_prefix)
      ultimately show False
        using that(3,4) by (auto simp: prefix_def)
    qed
    from False "2.prems"(1) consider
      (z1) "(p1, l1) \<in> set (leaf_paths (zero_child node) (byte @ ''0''))"
      | (o1) "(p1, l1) \<in> set (leaf_paths (one_child node) (byte @ ''1''))"
      by auto
    then show ?thesis
    proof cases
      case z1
      from False "2.prems"(2) consider
        (z2) "(p2, l2) \<in> set (leaf_paths (zero_child node) (byte @ ''0''))"
        | (o2) "(p2, l2) \<in> set (leaf_paths (one_child node) (byte @ ''1''))"
        by auto
      then show ?thesis
      proof cases
        case z2
        from "2.IH"(1) [OF False z1 z2 "2.prems"(3)] show ?thesis .
      next
        case o2
        from cross [OF z1 o2] "2.prems"(3) show ?thesis by simp
      qed
    next
      case o1
      from False "2.prems"(2) consider
        (z2) "(p2, l2) \<in> set (leaf_paths (zero_child node) (byte @ ''0''))"
        | (o2) "(p2, l2) \<in> set (leaf_paths (one_child node) (byte @ ''1''))"
        by auto
      then show ?thesis
      proof cases
        case z2
        from cross [OF z2 o1] "2.prems"(3) show ?thesis by simp
      next
        case o2
        from "2.IH"(2) [OF False o1 o2 "2.prems"(3)] show ?thesis .
      qed
    qed
  qed
qed

lemma create_encoding_map_prefix_code: "prefix_code (create_encoding_map node byte)"
  unfolding prefix_code_def
proof (intro allI impI notI)
  fix c1 c2 w1 w2
  assume a: "c1 \<noteq> c2 \<and> create_encoding_map node byte c1 = Some w1
    \<and> create_encoding_map node byte c2 = Some w2" and p: "prefix w1 w2"
  let ?f = "\<lambda>(p, leaf). (char leaf, p)"
  from a have "(c1, w1) \<in> set (map ?f (leaf_paths node byte))"
    "(c2, w2) \<in> set (map ?f (leaf_paths node byte))"
    by (auto simp: create_encoding_map_leaf_paths dest!: map_of_SomeD)
  then obtain l1 l2 where "(w1, l1) \<in> set (leaf_paths node byte)" "char l1 = c1"
    "(w2, l2) \<in> set (leaf_paths node byte)" "char l2 = c2"
    by auto
  with leaf_paths_prefix_free [OF this(1) this(3) p] a show False
    by simp
qed

text \<open>
  C5. For every corpus, and whatever the iteration order of the constructor, the
  constructor returns a codec whose encoding map is a prefix code.
\<close>

theorem encoding_map_prefix_code:
  "\<exists>self. init chars corpus = Some self \<and> prefix_code (get_encoding_map self)"
proof -
  from init_returns obtain self where s: "init chars corpus = Some self"
    by blast
  have "prefix_code (get_encoding_map self)"
  proof (cases "corpus = []")
    case True
    with s show ?thesis
      by (auto simp: init_empty get_encoding_map_def prefix_code_def split: if_splits)
  next
    case False
    with s obtain root where "encoding_map self = create_encoding_map (Some root) []"
      by (auto simp: init_def Let_def split: option.splits)
    then show ?thesis
      by (simp only: get_encoding_map_def create_encoding_map_prefix_code)
  qed
  with s show ?thesis by blast
qed

theorem encoding_map_prefix_code_witness:
  "\<exists>self. init ''ABC'' ''ABBBCC'' = Some self
     \<and> CHR ''A'' \<noteq> ETB_CHAR
     \<and> get_encoding_map self CHR ''A'' = Some ''101''
     \<and> get_encoding_map self ETB_CHAR = Some ''100''
     \<and> \<not> prefix ''101'' ''100''"
proof -
  from encoding_map_prefix_code [of "''ABC''" "''ABBBCC''"] obtain self
    where s: "init ''ABC'' ''ABBBCC'' = Some self" and p: "prefix_code (get_encoding_map self)"
    by blast
  have "case init ''ABC'' ''ABBBCC'' of
          None \<Rightarrow> False
        | Some self \<Rightarrow> get_encoding_map self CHR ''A'' = Some ''101''
            \<and> get_encoding_map self ETB_CHAR = Some ''100''"
    by code_simp
  with s have e: "get_encoding_map self CHR ''A'' = Some ''101''"
    "get_encoding_map self ETB_CHAR = Some ''100''"
    by simp_all
  have n: "CHR ''A'' \<noteq> ETB_CHAR"
    by (simp add: ETB_CHAR_def)
  from p n e have "\<not> prefix ''101'' ''100''"
    unfolding prefix_code_def by blast
  with s n e show ?thesis by blast
qed

section \<open>The heap operations keep the items\<close>

lemma mset_update_swap:
  assumes "p < length h" "q < length h" "p \<noteq> q"
  shows "mset (h[q := h ! p, p := x]) = mset (h[q := x])"
proof -
  let ?g = "h[q := x]"
  have "mset (?g[q := ?g ! p, p := ?g ! q]) = mset ?g"
    using assms by (intro mset_swap) simp_all
  moreover have "?g[q := ?g ! p, p := ?g ! q] = h[q := h ! p, p := x]"
    using assms by simp
  ultimately show ?thesis by simp
qed

lemma mset_siftdown_loop:
  "pos < length heap \<Longrightarrow>
     mset (siftdown_loop heap startpos pos newitem) = mset (heap[pos := newitem])"
proof (induction heap startpos pos newitem rule: siftdown_loop.induct)
  case (1 heap startpos pos newitem)
  show ?case
  proof (cases "pos > startpos \<and> lt newitem (heap ! ((pos - 1) div 2))")
    case False
    then show ?thesis
      by (subst siftdown_loop.simps) (auto simp: Let_def)
  next
    case True
    let ?p = "(pos - 1) div 2"
    from True "1.prems" have p: "?p < length heap" "?p \<noteq> pos" "?p < pos"
      by auto
    have "siftdown_loop heap startpos pos newitem
        = siftdown_loop (heap[pos := heap ! ?p]) startpos ?p newitem"
      using True by (subst siftdown_loop.simps) (simp add: Let_def)
    also have "mset \<dots> = mset (heap[pos := heap ! ?p, ?p := newitem])"
      using True p by (intro "1.IH") simp_all
    also have "\<dots> = mset (heap[pos := newitem])"
      using p "1.prems" by (intro mset_update_swap) simp_all
    finally show ?thesis .
  qed
qed

lemma mset_siftup_loop:
  "siftup_loop heap endpos pos = (heap', pos') \<Longrightarrow> endpos = length heap \<Longrightarrow>
     pos < length heap \<Longrightarrow>
     length heap' = length heap \<and> pos' < length heap
     \<and> mset (heap'[pos' := x]) = mset (heap[pos := x])"
proof (induction heap endpos pos arbitrary: heap' pos' rule: siftup_loop.induct)
  case (1 heap endpos pos)
  show ?case
  proof (cases "2 * pos + 1 < endpos")
    case False
    with "1.prems" show ?thesis
      by (subst (asm) siftup_loop.simps) (simp add: Let_def)
  next
    case True
    define c where "c = (if 2 * pos + 1 + 1 < endpos
        \<and> \<not> lt (heap ! (2 * pos + 1)) (heap ! (2 * pos + 1 + 1))
      then 2 * pos + 1 + 1 else 2 * pos + 1)"
    have c: "c < length heap" "c \<noteq> pos"
      using True "1.prems"(2) by (auto simp: c_def)
    have "siftup_loop heap endpos pos = siftup_loop (heap[pos := heap ! c]) endpos c"
      using True by (subst siftup_loop.simps) (simp add: Let_def c_def)
    with "1.prems" have r: "siftup_loop (heap[pos := heap ! c]) endpos c = (heap', pos')"
      by simp
    have "length heap' = length (heap[pos := heap ! c])
      \<and> pos' < length (heap[pos := heap ! c])
      \<and> mset (heap'[pos' := x]) = mset (heap[pos := heap ! c, c := x])"
      by (rule "1.IH" [OF refl True refl c_def])
        (use r c "1.prems" in simp_all)
    moreover have "mset (heap[pos := heap ! c, c := x]) = mset (heap[pos := x])"
      using c "1.prems" by (intro mset_update_swap) simp_all
    ultimately show ?thesis by simp
  qed
qed

lemma mset_heappush: "mset (heappush heap item) = add_mset item (mset heap)"
  by (simp add: heappush_def siftdown_def Let_def mset_siftdown_loop)

lemma mset_siftup:
  assumes "pos < length heap"
  shows "mset (siftup heap pos) = mset heap"
proof -
  obtain heap' pos' where r: "siftup_loop heap (length heap) pos = (heap', pos')"
    by (cases "siftup_loop heap (length heap) pos")
  from mset_siftup_loop [OF r refl assms, of "heap ! pos"]
  have l: "length heap' = length heap" "pos' < length heap"
    and m: "mset (heap'[pos' := heap ! pos]) = mset heap"
    by simp_all
  have "siftup heap pos = siftdown_loop (heap'[pos' := heap ! pos]) pos pos' (heap ! pos)"
    using l by (simp add: siftup_def siftdown_def Let_def r)
  then show ?thesis
    using l m by (simp add: mset_siftdown_loop)
qed

lemma mset_heappop:
  assumes "heap \<noteq> []" "heappop heap = (item, heap')"
  shows "mset heap = add_mset item (mset heap')"
proof (cases "butlast heap = []")
  case True
  with assms show ?thesis
    by (cases heap rule: rev_cases) (auto simp: heappop_def Let_def)
next
  case False
  from assms(1) obtain b l where h: "heap = b @ [l]"
    by (cases heap rule: rev_cases) auto
  with False have b: "b \<noteq> []" by simp
  with assms(2) have i: "item = b ! 0" and h': "heap' = siftup (b[0 := l]) 0"
    by (auto simp: heappop_def Let_def h)
  have "mset heap' = mset (b[0 := l])"
    unfolding h' using b by (intro mset_siftup) simp
  also have "\<dots> = add_mset l (mset b - {#b ! 0#})"
    using b by (simp add: mset_update)
  finally show ?thesis
    using b by (simp add: h i)
qed

lemma mset_get:
  "get q = Some (item, q') \<Longrightarrow> mset q = add_mset item (mset q')"
  by (cases "q = []") (auto simp: get_def qsize_def dest: mset_heappop)

lemma mset_put: "mset (put q item) = add_mset item (mset q)"
  by (simp add: put_def mset_heappush)

section \<open>The leaves of the trie are the leaves put into the queue\<close>

lemma map_snd_leaf_paths:
  "map snd (leaf_paths node byte) = map snd (leaf_paths node byte')"
proof (induction node byte arbitrary: byte' rule: leaf_paths.induct)
  case (1 byte)
  show ?case by simp
next
  case (2 node byte)
  show ?case
  proof (cases "is_leaf node")
    case True
    then show ?thesis by simp
  next
    case False
    with "2.IH"(1) [of "byte' @ ''0''"] "2.IH"(2) [of "byte' @ ''1''"]
    show ?thesis by simp
  qed
qed

lemma leaf_nodes_leaf [simp]: "leaf_nodes (HuffmanNode c f None None) = [HuffmanNode c f None None]"
  by (simp add: leaf_nodes_def is_leaf_def)

lemma leaf_nodes_merge [simp]:
  "leaf_nodes (HuffmanNode c f (Some z) (Some o1)) = leaf_nodes z @ leaf_nodes o1"
  using map_snd_leaf_paths [of "Some z" "''0''" "[]"] map_snd_leaf_paths [of "Some o1" "''1''" "[]"]
  by (simp add: leaf_nodes_def is_leaf_def)

lemma grow_trie_leaves:
  "grow_trie trie = Some (root, q) \<Longrightarrow> mset (leaf_nodes root) = leaves_mset (mset trie)"
proof (induction "length trie" arbitrary: trie rule: less_induct)
  case less
  show ?case
  proof (cases "qsize trie > 1")
    case False
    with less.prems have g: "get trie = Some (root, q)"
      by (subst (asm) grow_trie.simps) simp
    from get_length [OF g] False have "q = []"
      by (simp add: qsize_def)
    with mset_get [OF g] show ?thesis
      by (simp add: leaves_mset_def)
  next
    case True
    from less.prems True obtain z t1 where g1: "get trie = Some (z, t1)"
      by (subst (asm) grow_trie.simps) (auto split: option.splits)
    from less.prems True g1 obtain o1 t2 where g2: "get t1 = Some (o1, t2)"
      by (subst (asm) grow_trie.simps) (auto split: option.splits)
    define node where "node = HuffmanNode (if char z > char o1 then char o1 else char z)
      (freq z + freq o1) (Some z) (Some o1)"
    from less.prems True g1 g2 have r: "grow_trie (put t2 node) = Some (root, q)"
      by (subst (asm) grow_trie.simps) (simp add: Let_def node_def)
    have "length (put t2 node) < length trie"
      using get_length [OF g1] get_length [OF g2] by simp
    from less.hyps [OF this r]
    have "mset (leaf_nodes root) = leaves_mset (mset (put t2 node))" .
    also have "\<dots> = leaves_mset (mset trie)"
      using mset_get [OF g1] mset_get [OF g2]
      by (simp add: mset_put leaves_mset_def node_def)
    finally show ?thesis .
  qed
qed

lemma mset_put_leaves:
  "mset (put_leaves q chars corpus)
     = mset q + mset (map (\<lambda>item. HuffmanNode item (count corpus item) None None) chars)"
  by (induction chars arbitrary: q) (simp_all add: Let_def mset_put)

lemma leaves_mset_leaves:
  "leaves_mset (mset (map (\<lambda>item. HuffmanNode item (f item) None None) chars))
     = mset (map (\<lambda>item. HuffmanNode item (f item) None None) chars)"
  by (induction chars) (simp_all add: leaves_mset_def)

lemma init_leaves:
  assumes "init chars corpus = Some self" "corpus \<noteq> []"
  shows "\<exists>root. trie_root self = Some root
     \<and> encoding_map self = create_encoding_map (Some root) []
     \<and> mset (leaf_nodes root)
         = add_mset (HuffmanNode ETB_CHAR 1 None None)
             (mset (map (\<lambda>item. HuffmanNode item (count corpus item) None None) chars))"
proof -
  let ?q = "put_leaves (put [] (HuffmanNode ETB_CHAR 1 None None)) chars corpus"
  from assms obtain root q where g: "grow_trie ?q = Some (root, q)"
    and s: "self = \<lparr>encoding_map = create_encoding_map (Some root) [],
                     leaves = q, trie_root = Some root\<rparr>"
    by (auto simp: init_def Let_def split: option.splits)
  have "leaves_mset (mset ?q) = add_mset (HuffmanNode ETB_CHAR 1 None None)
             (mset (map (\<lambda>item. HuffmanNode item (count corpus item) None None) chars))"
    using leaves_mset_leaves [of "count corpus" chars]
    by (simp add: mset_put_leaves mset_put leaves_mset_def)
  with grow_trie_leaves [OF g] s show ?thesis
    by simp
qed

section \<open>The sentinel in the corpus\<close>

lemma distinct_leaf_paths: "distinct (map fst (leaf_paths node byte))"
proof (induction node byte rule: leaf_paths.induct)
  case (1 byte)
  show ?case by simp
next
  case (2 node byte)
  show ?case
  proof (cases "is_leaf node")
    case True
    then show ?thesis by simp
  next
    case False
    have "fst ` set (leaf_paths (zero_child node) (byte @ ''0''))
        \<inter> fst ` set (leaf_paths (one_child node) (byte @ ''1'')) = {}"
    proof (rule ccontr)
      assume "\<not> ?thesis"
      then obtain p l1 l2 where "(p, l1) \<in> set (leaf_paths (zero_child node) (byte @ ''0''))"
        "(p, l2) \<in> set (leaf_paths (one_child node) (byte @ ''1''))"
        by auto
      then have "prefix (byte @ ''0'') p" "prefix (byte @ ''1'') p"
        by (auto dest: leaf_paths_prefix)
      then show False
        by (auto simp: prefix_def)
    qed
    with False "2.IH" show ?thesis
      by simp
  qed
qed

lemma map_of_rev_last:
  "filter (\<lambda>(k, v). k = c) xs = ys @ [(c', w)] \<Longrightarrow> map_of (rev xs) c = Some w"
proof (induction xs arbitrary: ys c' w rule: rev_induct)
  case Nil
  then show ?case by simp
next
  case (snoc x xs)
  then show ?case
    by (cases x) (auto split: if_splits)
qed

lemma filter_eq_distinct:
  "distinct xs \<Longrightarrow> x \<in> set xs \<Longrightarrow> filter (\<lambda>y. y = x) xs = [x]"
  by (induction xs) (auto simp: filter_empty_conv)

text \<open>
  C10. When the corpus contains the sentinel, the trie that the constructor builds has
  exactly two leaves with the sentinel, at different places, the one with frequency 1
  and the other with the number of sentinels in the corpus; the encoding map takes the
  sentinel to the place of the one that \<open>create_encoding_map\<close> visits last.
\<close>

theorem sentinel_in_corpus:
  assumes "ETB_CHAR \<in> set corpus" "iteration_of chars corpus"
  shows "\<exists>self root p1 l1 p2 l2.
     init chars corpus = Some self \<and> trie_root self = Some root
     \<and> filter (\<lambda>(p, leaf). char leaf = ETB_CHAR) (leaf_paths (Some root) [])
         = [(p1, l1), (p2, l2)]
     \<and> p1 \<noteq> p2
     \<and> {#l1, l2#} = {#HuffmanNode ETB_CHAR 1 None None,
                       HuffmanNode ETB_CHAR (int (count_list corpus ETB_CHAR)) None None#}
     \<and> get_encoding_map self ETB_CHAR = Some p2"
proof -
  let ?leaf = "\<lambda>item. HuffmanNode item (count corpus item) None None"
  let ?Q = "\<lambda>leaf. char leaf = ETB_CHAR"
  from assms have ne: "corpus \<noteq> []" and d: "distinct chars" and m: "ETB_CHAR \<in> set chars"
    by (auto simp: iteration_of_def)
  from init_returns obtain self where s: "init chars corpus = Some self"
    by blast
  from init_leaves [OF s ne] obtain root where r: "trie_root self = Some root"
    and e: "encoding_map self = create_encoding_map (Some root) []"
    and l: "mset (leaf_nodes root)
         = add_mset (HuffmanNode ETB_CHAR 1 None None) (mset (map ?leaf chars))"
    by blast
  have f: "filter ?Q (map ?leaf chars) = map ?leaf (filter (\<lambda>y. y = ETB_CHAR) chars)"
    by (simp add: filter_map comp_def)
  define sl where "sl = filter (\<lambda>(p, leaf). char leaf = ETB_CHAR) (leaf_paths (Some root) [])"
  have "map snd sl = filter ?Q (leaf_nodes root)"
    by (simp add: sl_def leaf_nodes_def filter_map comp_def case_prod_unfold)
  then have "mset (map snd sl) = filter_mset ?Q (mset (leaf_nodes root))"
    by simp
  also have "\<dots> = add_mset (HuffmanNode ETB_CHAR 1 None None)
      (mset (filter ?Q (map ?leaf chars)))"
    by (simp add: l)
  also have "\<dots> = {#HuffmanNode ETB_CHAR 1 None None, ?leaf ETB_CHAR#}"
    unfolding f filter_eq_distinct [OF d m] by simp
  finally have ms: "mset (map snd sl) = {#HuffmanNode ETB_CHAR 1 None None, ?leaf ETB_CHAR#}" .
  then have "length sl = 2"
    using size_mset [of "map snd sl"] by simp
  then obtain p1 l1 p2 l2 where sl: "sl = [(p1, l1), (p2, l2)]"
    by (auto simp: length_Suc_conv numeral_2_eq_2)
  have "distinct (map fst sl)"
    unfolding sl_def using distinct_leaf_paths [of "Some root" "[]"]
    by (simp add: distinct_map_filter)
  then have p: "p1 \<noteq> p2"
    by (simp add: sl)
  have "filter (\<lambda>(k, v). k = ETB_CHAR)
      (map (\<lambda>(p, leaf). (char leaf, p)) (leaf_paths (Some root) []))
      = map (\<lambda>(p, leaf). (char leaf, p)) sl"
    by (simp add: sl_def filter_map comp_def case_prod_unfold)
  also have "\<dots> = [(char l1, p1)] @ [(char l2, p2)]"
    by (simp add: sl)
  finally have "get_encoding_map self ETB_CHAR = Some p2"
    unfolding get_encoding_map_def e create_encoding_map_leaf_paths
    by (rule map_of_rev_last)
  moreover from ms have "{#l1, l2#} = {#HuffmanNode ETB_CHAR 1 None None,
      HuffmanNode ETB_CHAR (int (count_list corpus ETB_CHAR)) None None#}"
    by (simp add: sl count_def)
  ultimately show ?thesis
    using s r p sl unfolding sl_def by blast
qed

theorem sentinel_in_corpus_witness:
  "ETB_CHAR \<in> set (ETB_CHAR # ETB_CHAR # ''A'')
   \<and> iteration_of (ETB_CHAR # ''A'') (ETB_CHAR # ETB_CHAR # ''A'')
   \<and> (\<exists>self root p1 l1 p2 l2.
        init (ETB_CHAR # ''A'') (ETB_CHAR # ETB_CHAR # ''A'') = Some self
        \<and> trie_root self = Some root
        \<and> filter (\<lambda>(p, leaf). char leaf = ETB_CHAR) (leaf_paths (Some root) [])
            = [(p1, l1), (p2, l2)]
        \<and> p1 \<noteq> p2
        \<and> {#l1, l2#} = {#HuffmanNode ETB_CHAR 1 None None,
                          HuffmanNode ETB_CHAR 2 None None#}
        \<and> get_encoding_map self ETB_CHAR = Some p2)"
proof -
  have m: "ETB_CHAR \<in> set (ETB_CHAR # ETB_CHAR # ''A'')"
    by simp
  have i: "iteration_of (ETB_CHAR # ''A'') (ETB_CHAR # ETB_CHAR # ''A'')"
    by (auto simp: iteration_of_def ETB_CHAR_def)
  have c: "int (count_list (ETB_CHAR # ETB_CHAR # ''A'') ETB_CHAR) = 2"
    by (simp add: ETB_CHAR_def)
  from sentinel_in_corpus [OF m i] m i show ?thesis
    unfolding c by blast
qed

section \<open>The heap order\<close>

lemma lt_key: "lt a b = (key a < key b)"
  by (auto simp: lt_def key_def less_prod_def)

lemma parent_less: "0 < i \<Longrightarrow> parent i < i"
  by (simp add: parent_def)

lemma parent_child [simp]: "parent (2 * p + 1) = p" "parent (2 * p + 2) = p"
  by (simp_all add: parent_def)

lemma parent_eqD: "0 < i \<Longrightarrow> parent i = p \<Longrightarrow> i = 2 * p + 1 \<or> i = 2 * p + 2"
  unfolding parent_def by presburger

lemma up_inv_done:
  assumes "up_inv h pos x" "pos = 0 \<or> \<not> key x < key (h ! parent pos)"
  shows "heap_inv (h[pos := x])"
  unfolding heap_inv_def
proof (intro allI impI)
  fix i assume i: "0 < i \<and> i < length (h[pos := x])"
  show "key (h[pos := x] ! parent i) \<le> key (h[pos := x] ! i)"
  proof (cases "i = pos")
    case False
    with assms(1) i show ?thesis by (simp add: up_inv_def)
  next
    case True
    with i assms(2) have "key (h ! parent pos) \<le> key x" by auto
    moreover from True i have "parent i \<noteq> pos" "parent i < length h"
      using parent_less [of i] by auto
    ultimately show ?thesis using True i by simp
  qed
qed

lemma up_inv_step:
  assumes u: "up_inv h pos x" and p: "0 < pos" and l: "key x < key (h ! parent pos)"
  shows "up_inv (h[pos := h ! parent pos]) (parent pos) x"
proof -
  let ?p = "parent pos"
  let ?g = "h[pos := x]"
  let ?h' = "h[pos := h ! ?p]"
  from u have len: "pos < length h" by (simp add: up_inv_def)
  from p have pp: "?p < pos" by (rule parent_less)
  from u have e: "\<And>i. 0 < i \<Longrightarrow> i < length h \<Longrightarrow> i \<noteq> pos \<Longrightarrow> key (?g ! parent i) \<le> key (?g ! i)"
    by (simp add: up_inv_def)
  from u p have c: "\<And>i. 0 < i \<Longrightarrow> i < length h \<Longrightarrow> parent i = pos \<Longrightarrow> key (h ! ?p) \<le> key (h ! i)"
    by (simp add: up_inv_def)
  have 1: "key (?h'[?p := x] ! parent i) \<le> key (?h'[?p := x] ! i)"
    if i: "0 < i" "i < length h" "i \<noteq> ?p" for i
  proof (cases "i = pos")
    case True
    with l len pp show ?thesis by simp
  next
    case False
    from i(1) have pi: "parent i < i" by (rule parent_less)
    show ?thesis
    proof (cases "parent i = pos")
      case True
      with c [OF i(1,2) True] i False pp len show ?thesis by simp
    next
      case np: False
      show ?thesis
      proof (cases "parent i = ?p")
        case True
        from e [OF i(1,2) False] True False pp have "key (h ! ?p) \<le> key (h ! i)"
          by simp
        with l True i False pp len show ?thesis by simp
      next
        case False
        with e [OF i(1,2) \<open>i \<noteq> pos\<close>] np i \<open>i \<noteq> pos\<close> show ?thesis by simp
      qed
    qed
  qed
  have 2: "key (?h' ! parent ?p) \<le> key (?h' ! i)"
    if i: "0 < i" "i < length h" "parent i = ?p" "0 < ?p" for i
  proof -
    from i(4) have ppp: "parent ?p < ?p" by (rule parent_less)
    from e [of ?p] i(4) pp len ppp have a: "key (h ! parent ?p) \<le> key (h ! ?p)"
      by simp
    show ?thesis
    proof (cases "i = pos")
      case True
      with a pp ppp len show ?thesis by simp
    next
      case False
      from e [OF i(1,2) False] i(3) False pp have "key (h ! ?p) \<le> key (h ! i)"
        by simp
      with a False pp ppp show ?thesis by simp
    qed
  qed
  from 1 2 len pp show ?thesis
    by (simp add: up_inv_def)
qed

lemma siftdown_loop_heap_inv:
  "up_inv heap pos newitem \<Longrightarrow> heap_inv (siftdown_loop heap 0 pos newitem)"
proof (induction heap "0::nat" pos newitem rule: siftdown_loop.induct)
  case (1 heap pos newitem)
  show ?case
  proof (cases "pos > 0 \<and> lt newitem (heap ! ((pos - 1) div 2))")
    case False
    then have "siftdown_loop heap 0 pos newitem = heap[pos := newitem]"
      by (subst siftdown_loop.simps) (auto simp: Let_def)
    with up_inv_done [OF "1.prems"] False show ?thesis
      by (auto simp: lt_key parent_def)
  next
    case True
    then have "siftdown_loop heap 0 pos newitem
        = siftdown_loop (heap[pos := heap ! parent pos]) 0 (parent pos) newitem"
      by (subst siftdown_loop.simps) (simp add: Let_def parent_def)
    moreover have "heap_inv (siftdown_loop (heap[pos := heap ! parent pos]) 0 (parent pos) newitem)"
      using True up_inv_step [OF "1.prems"]
      by (intro "1.hyps" [unfolded parent_def [symmetric]]) (auto simp: lt_key parent_def)
    ultimately show ?thesis by simp
  qed
qed

lemma heap_inv_heappush:
  assumes "heap_inv heap"
  shows "heap_inv (heappush heap item)"
proof -
  have "up_inv (heap @ [item]) (length heap) item"
    unfolding up_inv_def
  proof (intro conjI allI impI)
    show "length heap < length (heap @ [item])" by simp
  next
    fix i assume "0 < i \<and> i < length (heap @ [item]) \<and> i \<noteq> length heap"
    then have i: "0 < i" "i < length heap" by simp_all
    with parent_less [of i] have "parent i < length heap" by simp
    with i assms show "key ((heap @ [item])[length heap := item] ! parent i)
       \<le> key ((heap @ [item])[length heap := item] ! i)"
      by (simp add: heap_inv_def nth_append)
  next
    fix i assume "0 < i \<and> i < length (heap @ [item]) \<and> parent i = length heap \<and> 0 < length heap"
    with parent_less [of i] show "key ((heap @ [item]) ! parent (length heap)) \<le> key ((heap @ [item]) ! i)"
      by simp
  qed
  then have "heap_inv (siftdown_loop (heap @ [item]) 0 (length heap) item)"
    by (rule siftdown_loop_heap_inv)
  then show ?thesis
    by (simp add: heappush_def siftdown_def Let_def)
qed

lemma down_inv_step:
  assumes d: "down_inv h pos" and l: "2 * pos + 1 < length h"
    and c: "c = (if 2 * pos + 1 + 1 < length h \<and> \<not> lt (h ! (2 * pos + 1)) (h ! (2 * pos + 1 + 1))
                 then 2 * pos + 1 + 1 else 2 * pos + 1)"
  shows "down_inv (h[pos := h ! c]) c"
proof -
  let ?h' = "h[pos := h ! c]"
  from l c have cl: "c < length h" "pos < c" "parent c = pos" "0 < c"
    by (auto simp: parent_def)
  from d have e: "\<And>i. 0 < i \<Longrightarrow> i < length h \<Longrightarrow> i \<noteq> pos \<Longrightarrow> parent i \<noteq> pos
      \<Longrightarrow> key (h ! parent i) \<le> key (h ! i)"
    by (simp add: down_inv_def)
  from d have g: "\<And>i. 0 < i \<Longrightarrow> i < length h \<Longrightarrow> parent i = pos \<Longrightarrow> 0 < pos
      \<Longrightarrow> key (h ! parent pos) \<le> key (h ! i)"
    by (simp add: down_inv_def)
  have sib: "key (h ! c) \<le> key (h ! i)" if i: "0 < i" "i < length h" "parent i = pos" for i
  proof -
    from parent_eqD [OF i(1,3)] have "i = 2 * pos + 1 \<or> i = 2 * pos + 2" .
    with i(2) c show ?thesis
      by (auto simp: lt_key split: if_splits)
  qed
  have 1: "key (?h' ! parent i) \<le> key (?h' ! i)"
    if i: "0 < i" "i < length h" "i \<noteq> c" "parent i \<noteq> c" for i
  proof (cases "i = pos")
    case True
    from i(1) have "parent i < i" by (rule parent_less)
    with g [OF cl(4,1,3)] True i cl show ?thesis by simp
  next
    case False
    show ?thesis
    proof (cases "parent i = pos")
      case True
      with sib [OF i(1,2) True] False cl show ?thesis by simp
    next
      case np: False
      with e [OF i(1,2) False np] False show ?thesis by simp
    qed
  qed
  have 2: "key (?h' ! parent c) \<le> key (?h' ! i)"
    if i: "0 < i" "i < length h" "parent i = c" for i
  proof -
    from i(1) have "parent i < i" by (rule parent_less)
    with i cl have ip: "i \<noteq> pos" by simp
    with e [OF i(1,2)] i(3) cl have "key (h ! c) \<le> key (h ! i)" by simp
    with ip cl show ?thesis by simp
  qed
  from 1 2 cl show ?thesis
    by (simp add: down_inv_def)
qed

lemma siftup_loop_down_inv:
  "siftup_loop heap endpos pos = (heap', pos') \<Longrightarrow> endpos = length heap \<Longrightarrow>
     down_inv heap pos \<Longrightarrow>
     down_inv heap' pos' \<and> length heap' = length heap \<and> \<not> 2 * pos' + 1 < length heap'"
proof (induction heap endpos pos arbitrary: heap' pos' rule: siftup_loop.induct)
  case (1 heap endpos pos)
  show ?case
  proof (cases "2 * pos + 1 < endpos")
    case False
    with "1.prems" show ?thesis
      by (subst (asm) siftup_loop.simps) (auto simp: Let_def)
  next
    case True
    define c where "c = (if 2 * pos + 1 + 1 < endpos
        \<and> \<not> lt (heap ! (2 * pos + 1)) (heap ! (2 * pos + 1 + 1))
      then 2 * pos + 1 + 1 else 2 * pos + 1)"
    have "siftup_loop heap endpos pos = siftup_loop (heap[pos := heap ! c]) endpos c"
      using True by (subst siftup_loop.simps) (simp add: Let_def c_def)
    with "1.prems" have r: "siftup_loop (heap[pos := heap ! c]) endpos c = (heap', pos')"
      by simp
    have d: "down_inv (heap[pos := heap ! c]) c"
      using "1.prems"(2,3) True c_def by (intro down_inv_step) simp_all
    have "down_inv heap' pos' \<and> length heap' = length (heap[pos := heap ! c])
      \<and> \<not> 2 * pos' + 1 < length heap'"
      by (rule "1.IH" [OF refl True refl c_def r]) (use d "1.prems" in simp_all)
    then show ?thesis by simp
  qed
qed

lemma heap_inv_siftup:
  assumes "down_inv heap 0"
  shows "heap_inv (siftup heap 0)"
proof -
  obtain heap' pos' where r: "siftup_loop heap (length heap) 0 = (heap', pos')"
    by (cases "siftup_loop heap (length heap) 0")
  from siftup_loop_down_inv [OF r refl assms]
  have d: "down_inv heap' pos'" and l: "length heap' = length heap"
    and leaf: "\<not> 2 * pos' + 1 < length heap'"
    by simp_all
  let ?x = "heap ! 0"
  have "up_inv (heap'[pos' := ?x]) pos' ?x"
    unfolding up_inv_def
  proof (intro conjI allI impI)
    from d show "pos' < length (heap'[pos' := ?x])" by (simp add: down_inv_def)
  next
    fix i assume a: "0 < i \<and> i < length (heap'[pos' := ?x]) \<and> i \<noteq> pos'"
    then have "parent i \<noteq> pos'"
      using parent_eqD [of i pos'] leaf by auto
    with a d show "key (heap'[pos' := ?x, pos' := ?x] ! parent i)
       \<le> key (heap'[pos' := ?x, pos' := ?x] ! i)"
      by (simp add: down_inv_def)
  next
    fix i assume "0 < i \<and> i < length (heap'[pos' := ?x]) \<and> parent i = pos' \<and> 0 < pos'"
    with parent_eqD [of i pos'] leaf
    show "key (heap'[pos' := ?x] ! parent pos') \<le> key (heap'[pos' := ?x] ! i)"
      by auto
  qed
  then have "heap_inv (siftdown_loop (heap'[pos' := ?x]) 0 pos' ?x)"
    by (rule siftdown_loop_heap_inv)
  moreover from d have "pos' < length heap'" by (simp add: down_inv_def)
  ultimately show ?thesis
    by (simp add: siftup_def siftdown_def Let_def r)
qed

lemma heap_inv_heappop:
  assumes "heap_inv heap" "heap \<noteq> []"
  shows "fst (heappop heap) = heap ! 0 \<and> heap_inv (snd (heappop heap))"
proof (cases "butlast heap = []")
  case True
  with assms(2) show ?thesis
    by (cases heap rule: rev_cases) (auto simp: heappop_def Let_def heap_inv_def)
next
  case False
  from assms(2) obtain b l where h: "heap = b @ [l]"
    by (cases heap rule: rev_cases) auto
  with False have b: "b \<noteq> []" by simp
  have "down_inv (b[0 := l]) 0"
    unfolding down_inv_def
  proof (intro conjI allI impI)
    from b show "0 < length (b[0 := l])" by simp
  next
    fix i assume a: "0 < i \<and> i < length (b[0 := l]) \<and> i \<noteq> 0 \<and> parent i \<noteq> 0"
    then have "parent i < length b"
      using parent_less [of i] by simp
    with a assms(1) [unfolded heap_inv_def, rule_format, of i]
    show "key (b[0 := l] ! parent i) \<le> key (b[0 := l] ! i)"
      by (simp add: h nth_append)
  next
    fix i assume "0 < i \<and> i < length (b[0 := l]) \<and> parent i = 0 \<and> (0::nat) < 0"
    then show "key (b[0 := l] ! parent 0) \<le> key (b[0 := l] ! i)" by simp
  qed
  then have "heap_inv (siftup (b[0 := l]) 0)"
    by (rule heap_inv_siftup)
  with b show ?thesis
    by (simp add: heappop_def Let_def h nth_append)
qed

lemma heap_inv_min:
  "heap_inv heap \<Longrightarrow> i < length heap \<Longrightarrow> key (heap ! 0) \<le> key (heap ! i)"
proof (induction i rule: less_induct)
  case (less i)
  show ?case
  proof (cases "i = 0")
    case True
    then show ?thesis by simp
  next
    case False
    then have p: "parent i < i" by (simp add: parent_less)
    with less.prems have "key (heap ! 0) \<le> key (heap ! parent i)"
      by (intro less.IH) simp_all
    also from less.prems False have "\<dots> \<le> key (heap ! i)"
      by (simp add: heap_inv_def)
    finally show ?thesis .
  qed
qed

section \<open>Determinism of the construction\<close>

lemma heap_inv_get:
  assumes "heap_inv q" "get q = Some (item, q')"
  shows "item = q ! 0 \<and> heap_inv q' \<and> q \<noteq> []"
proof -
  from assms(2) have ne: "q \<noteq> []" and p: "heappop q = (item, q')"
    by (auto simp: get_def qsize_def split: if_splits)
  from heap_inv_heappop [OF assms(1) ne] p ne show ?thesis
    by simp
qed

lemma heap_inv_put: "heap_inv q \<Longrightarrow> heap_inv (put q item)"
  by (simp add: put_def heap_inv_heappush)

lemma get_least:
  assumes "heap_inv q" "get q = Some (item, q')" "y \<in> set q"
  shows "key item \<le> key y"
proof -
  from assms(3) obtain i where "i < length q" "y = q ! i"
    by (auto simp: in_set_conv_nth)
  with heap_inv_min [OF assms(1), of i] heap_inv_get [OF assms(1,2)] show ?thesis
    by simp
qed

lemma set_get:
  assumes "get q = Some (item, q')"
  shows "set q = insert item (set q')"
proof -
  from mset_get [OF assms] have "set_mset (mset q) = set_mset (add_mset item (mset q'))"
    by simp
  then show ?thesis by simp
qed

lemma count_list_get:
  assumes "get q = Some (item, q')"
  shows "count_list q x = (if x = item then 1 else 0) + count_list q' x"
proof -
  from mset_get [OF assms]
  have "multiset.count (mset q) x = multiset.count (add_mset item (mset q')) x"
    by simp
  then show ?thesis by (auto simp: count_mset)
qed

lemma set_put: "set (put q item) = insert item (set q)"
proof -
  have "set_mset (mset (put q item)) = set_mset (add_mset item (mset q))"
    by (simp add: mset_put)
  then show ?thesis by simp
qed

lemma count_list_put:
  "count_list (put q item) x = (if x = item then 1 else 0) + count_list q x"
proof -
  have "multiset.count (mset (put q item)) x = multiset.count (add_mset item (mset q)) x"
    by (simp add: mset_put)
  then show ?thesis by (auto simp: count_mset)
qed

text \<open>
  When the nodes of two queues are the same and their characters tell them apart,
  \<open>get\<close> takes the same node out of both.
\<close>

lemma get_deterministic:
  assumes h: "heap_inv q1" "heap_inv q2" and m: "mset q1 = mset q2"
    and d: "inj_on char (set q1)"
    and g: "get q1 = Some (x1, t1)" "get q2 = Some (x2, t2)"
  shows "x1 = x2 \<and> mset t1 = mset t2 \<and> heap_inv t1 \<and> heap_inv t2"
proof -
  from mset_get [OF g(1)] have m1: "mset q1 = add_mset x1 (mset t1)" .
  from mset_get [OF g(2)] have m2: "mset q2 = add_mset x2 (mset t2)" .
  from set_get [OF g(1)] have i1: "x1 \<in> set q1" by simp
  from set_get [OF g(2)] have i2: "x2 \<in> set q2" by simp
  from m have s: "set q1 = set q2" by (rule mset_eq_setD)
  from get_least [OF h(1) g(1)] i2 s have "key x1 \<le> key x2" by simp
  moreover from get_least [OF h(2) g(2)] i1 s have "key x2 \<le> key x1" by simp
  ultimately have "key x1 = key x2" by (rule antisym)
  then have "char x1 = char x2" by (simp add: key_def)
  from this i1 i2 s have x: "x1 = x2"
    by (intro inj_onD [OF d]) simp_all
  with m m1 m2 have "mset t1 = mset t2" by simp
  with x heap_inv_get [OF h(1) g(1)] heap_inv_get [OF h(2) g(2)] show ?thesis
    by simp
qed

text \<open>One round of the loop of \<open>grow_trie\<close> keeps the invariant of the queue.\<close>

lemma queue_inv_merge:
  assumes hq: "heap_inv q" and qi: "queue_inv q"
    and g1: "get q = Some (z, t)" and g2: "get t = Some (o1, u)"
  shows "queue_inv (put u (HuffmanNode (if char z > char o1 then char o1 else char z)
    (freq z + freq o1) (Some z) (Some o1)))"
proof -
  let ?S = "HuffmanNode ETB_CHAR 1 None None"
  define c where "c = (if char z > char o1 then char o1 else char z)"
  define node where "node = HuffmanNode c (freq z + freq o1) (Some z) (Some o1)"
  from heap_inv_get [OF hq g1] have ht: "heap_inv t" by simp
  from set_get [OF g1] have sq: "set q = insert z (set t)" .
  from set_get [OF g2] have st: "set t = insert o1 (set u)" .
  from qi have inj: "inj_on char (set q)" and fr: "\<And>x. x \<in> set q \<Longrightarrow> 1 \<le> freq x"
    and cn: "\<And>x. count_list q x \<le> (if x = ?S then 2 else 1)"
    by (simp_all add: queue_inv_def)
  have cq: "count_list q x = (if x = z then 1 else 0) + (if x = o1 then 1 else 0)
      + count_list u x" for x
    by (simp add: count_list_get [OF g1] count_list_get [OF g2])
  from sq st have zq: "z \<in> set q" and oq: "o1 \<in> set q" and ot: "o1 \<in> set t"
    by simp_all
  have zo: "key z \<le> key o1"
    using get_least [OF hq g1 oq] .
  have N: "char w \<noteq> c" if w: "w \<in> set u" for w
  proof
    assume e: "char w = c"
    from w sq st have wq: "w \<in> set q" by simp
    from w have "count_list u w \<noteq> 0"
      by (simp add: count_list_0_iff)
    then have wu: "1 \<le> count_list u w"
      by simp
    from e consider (cz) "char w = char z" | (co) "char w = char o1" "char o1 < char z"
      by (auto simp: c_def split: if_splits)
    then show False
    proof cases
      case cz
      from inj_onD [OF inj cz wq zq] have wz: "w = z" .
      with w st have "z \<in> set t" by simp
      from get_least [OF ht g2 this] zo have "key z = key o1" by simp
      then have "char o1 = char z" by (simp add: key_def)
      from inj_onD [OF inj this oq zq] have "o1 = z" .
      with wu wz cq [of z] have "3 \<le> count_list q z" by simp
      with cn [of z] show False by (simp split: if_splits)
    next
      case co
      from inj_onD [OF inj co(1) wq oq] have wo: "w = o1" .
      with wu cq [of o1] have "2 \<le> count_list q o1" by simp
      with cn [of o1] have "o1 = ?S" by (simp split: if_splits)
      then have "freq o1 = 1" by simp
      moreover from fr [of z] sq have "1 \<le> freq z" by simp
      ultimately have "char z \<le> char o1"
        using zo by (auto simp: key_def less_eq_prod_def)
      with co(2) show False by simp
    qed
  qed
  have sp: "set (put u node) = insert node (set u)"
    by (rule set_put)
  have nu: "node \<notin> set u"
    using N [of node] by (auto simp: node_def)
  have "inj_on char (set (put u node))"
  proof -
    from sq st have "set u \<subseteq> set q" by auto
    with inj have "inj_on char (set u)"
      by (rule inj_on_subset)
    moreover have "char node \<notin> char ` (set u - {node})"
      using N by (auto simp: node_def)
    ultimately show ?thesis
      by (simp add: sp)
  qed
  moreover have "\<forall>x\<in>set (put u node). 1 \<le> freq x"
  proof
    fix x assume "x \<in> set (put u node)"
    with sp have "x = node \<or> x \<in> set u" by simp
    then show "1 \<le> freq x"
    proof
      assume "x = node"
      with fr [of z] fr [of o1] sq st show ?thesis by (simp add: node_def)
    next
      assume "x \<in> set u"
      with fr [of x] sq st show ?thesis by simp
    qed
  qed
  moreover have "\<forall>x. count_list (put u node) x \<le> (if x = ?S then 2 else 1)"
  proof
    fix x
    show "count_list (put u node) x \<le> (if x = ?S then 2 else 1)"
    proof (cases "x = node")
      case True
      with nu show ?thesis by (simp add: count_list_put)
    next
      case False
      have "count_list u x \<le> count_list q x" by (simp add: cq)
      with cn [of x] False show ?thesis by (simp add: count_list_put)
    qed
  qed
  ultimately show ?thesis
    by (simp add: queue_inv_def node_def c_def)
qed

lemma grow_trie_deterministic:
  assumes "heap_inv q1" "heap_inv q2" "mset q1 = mset q2" "queue_inv q1"
  shows "map_option fst (grow_trie q1) = map_option fst (grow_trie q2)"
  using assms
proof (induction "length q1" arbitrary: q1 q2 rule: less_induct)
  case less
  from less.prems(3) have len: "length q1 = length q2"
    by (rule mset_eq_length)
  from less.prems(4) have inj: "inj_on char (set q1)"
    by (simp add: queue_inv_def)
  show ?case
  proof (cases "q1 = []")
    case True
    with len show ?thesis by simp
  next
    case ne: False
    with len have ne2: "q2 \<noteq> []" by auto
    from get_nonempty [OF ne] obtain z1 t1 where g1: "get q1 = Some (z1, t1)" by blast
    from get_nonempty [OF ne2] obtain z2 t2 where g2: "get q2 = Some (z2, t2)" by blast
    from get_deterministic [OF less.prems(1-3) inj g1 g2]
    have z: "z1 = z2" and mt: "mset t1 = mset t2" and ht: "heap_inv t1" "heap_inv t2"
      by simp_all
    show ?thesis
    proof (cases "qsize q1 > 1")
      case False
      with len g1 g2 z show ?thesis
        by (subst (1 2) grow_trie.simps) (simp add: qsize_def)
    next
      case True
      from set_get [OF g1] have "set t1 \<subseteq> set q1" by auto
      with inj have it: "inj_on char (set t1)"
        by (rule inj_on_subset)
      from get_length [OF g1] True have "t1 \<noteq> []" by (auto simp: qsize_def)
      from get_nonempty [OF this] obtain o1 u1 where k1: "get t1 = Some (o1, u1)" by blast
      from mt \<open>t1 \<noteq> []\<close> have "t2 \<noteq> []" by auto
      from get_nonempty [OF this] obtain o2 u2 where k2: "get t2 = Some (o2, u2)" by blast
      from get_deterministic [OF ht mt it k1 k2]
      have o: "o1 = o2" and mu: "mset u1 = mset u2" and hu: "heap_inv u1" "heap_inv u2"
        by simp_all
      define node where "node = HuffmanNode (if char z1 > char o1 then char o1 else char z1)
        (freq z1 + freq o1) (Some z1) (Some o1)"
      have r1: "grow_trie q1 = grow_trie (put u1 node)"
        using True g1 k1 by (subst grow_trie.simps) (simp add: Let_def node_def)
      have r2: "grow_trie q2 = grow_trie (put u2 node)"
        using True len g2 k2 z o
        by (subst grow_trie.simps) (simp add: Let_def node_def qsize_def)
      have "length (put u1 node) < length q1"
        using get_length [OF g1] get_length [OF k1] by simp
      moreover have "mset (put u1 node) = mset (put u2 node)"
        by (simp add: mset_put mu)
      moreover have "queue_inv (put u1 node)"
        unfolding node_def by (rule queue_inv_merge [OF less.prems(1,4) g1 k1])
      ultimately have "map_option fst (grow_trie (put u1 node))
          = map_option fst (grow_trie (put u2 node))"
        using hu by (intro less.hyps heap_inv_put)
      with r1 r2 show ?thesis by simp
    qed
  qed
qed


lemma heap_inv_put_leaves:
  "heap_inv q \<Longrightarrow> heap_inv (put_leaves q chars corpus)"
  by (induction chars arbitrary: q) (simp_all add: Let_def heap_inv_put)

lemma heap_inv_Nil: "heap_inv []"
  by (simp add: heap_inv_def)

lemma count_list_put_leaves:
  "count_list (put_leaves q chars corpus) x
     = count_list q x
       + count_list (map (\<lambda>item. HuffmanNode item (count corpus item) None None) chars) x"
  by (induction chars arbitrary: q) (simp_all add: Let_def count_list_put)

text \<open>
  The queue of the constructor satisfies the invariant when the corpus has at most one
  sentinel: its leaf is then the sentinel leaf of frequency 1 once more.
\<close>

lemma queue_inv_init:
  assumes i: "iteration_of chars corpus" and o: "count_list corpus ETB_CHAR \<le> 1"
  shows "queue_inv (put_leaves (put [] (HuffmanNode ETB_CHAR 1 None None)) chars corpus)"
proof -
  let ?S = "HuffmanNode ETB_CHAR 1 None None"
  let ?leaf = "\<lambda>item. HuffmanNode item (count corpus item) None None"
  let ?q = "put_leaves (put [] ?S) chars corpus"
  have mq: "mset ?q = add_mset ?S (mset (map ?leaf chars))"
    by (simp add: mset_put_leaves mset_put)
  then have "set_mset (mset ?q) = set_mset (add_mset ?S (mset (map ?leaf chars)))"
    by simp
  then have sq: "set ?q = insert ?S (?leaf ` set chars)"
    by simp
  have cq: "count_list ?q x = (if x = ?S then 1 else 0) + count_list (map ?leaf chars) x"
    for x
    by (simp add: count_list_put_leaves count_list_put)
  from i have d: "distinct chars" and sc: "set chars = set corpus"
    by (simp_all add: iteration_of_def)
  have fr: "1 \<le> count corpus a" if "a \<in> set chars" for a
  proof -
    from that sc have "count_list corpus a \<noteq> 0"
      by (simp add: count_list_0_iff)
    then show ?thesis by (simp add: count_def)
  qed
  have etb: "?leaf ETB_CHAR = ?S" if "ETB_CHAR \<in> set chars"
    using fr [OF that] o by (simp add: count_def)
  have "inj_on char (set ?q)"
    unfolding sq
  proof (rule inj_onI)
    fix x y
    assume x: "x \<in> insert ?S (?leaf ` set chars)" and y: "y \<in> insert ?S (?leaf ` set chars)"
      and e: "char x = char y"
    from x consider "x = ?S" | a where "a \<in> set chars" "x = ?leaf a" by auto
    then show "x = y"
    proof cases
      case 1
      from y consider "y = ?S" | b where "b \<in> set chars" "y = ?leaf b" by auto
      then show ?thesis
      proof cases
        case 1
        with \<open>x = ?S\<close> show ?thesis by simp
      next
        case 2
        with e \<open>x = ?S\<close> have "b = ETB_CHAR" by simp
        with 2 etb \<open>x = ?S\<close> show ?thesis by simp
      qed
    next
      case 2
      from y consider "y = ?S" | b where "b \<in> set chars" "y = ?leaf b" by auto
      then show ?thesis
      proof cases
        case 1
        with e 2 have "a = ETB_CHAR" by simp
        with 1 2 etb show ?thesis by simp
      next
        case (2 b)
        with e \<open>x = ?leaf a\<close> show ?thesis by simp
      qed
    qed
  qed
  moreover have "\<forall>x\<in>set ?q. 1 \<le> freq x"
    unfolding sq using fr by auto
  moreover have "\<forall>x. count_list ?q x \<le> (if x = ?S then 2 else 1)"
  proof
    fix x
    from d have "distinct (map ?leaf chars)"
      by (simp add: distinct_map inj_on_def)
    then have "count_list (map ?leaf chars) x \<le> 1"
      by (simp add: distinct_count_atmost_1 count_mset [symmetric])
    then show "count_list ?q x \<le> (if x = ?S then 2 else 1)"
      by (auto simp: cq)
  qed
  ultimately show ?thesis
    by (simp add: queue_inv_def)
qed

text \<open>
  C4, as stated, fails. The corpora of two sentinels and the letters \<open>A\<close>, \<open>B\<close>, \<open>C\<close>
  have the same characters with the same frequencies, but the encoding map depends on
  where the sentinel comes in the iteration over the characters: the trie has two
  nodes with the sentinel and the frequency 2, which \<open>__lt__\<close> does not tell apart.
\<close>

theorem encoding_map_depends_on_iteration_order:
  "mset (ETB_CHAR # ETB_CHAR # ''ABC'') = mset (''ABC'' @ [ETB_CHAR, ETB_CHAR])
   \<and> iteration_of (ETB_CHAR # ''ABC'') (ETB_CHAR # ETB_CHAR # ''ABC'')
   \<and> iteration_of (''ABC'' @ [ETB_CHAR]) (''ABC'' @ [ETB_CHAR, ETB_CHAR])
   \<and> construct (ETB_CHAR # ''ABC'') (ETB_CHAR # ETB_CHAR # ''ABC'')
       \<noteq> construct (''ABC'' @ [ETB_CHAR]) (''ABC'' @ [ETB_CHAR, ETB_CHAR])"
proof -
  have "iteration_of (ETB_CHAR # ''ABC'') (ETB_CHAR # ETB_CHAR # ''ABC'')"
    "iteration_of (''ABC'' @ [ETB_CHAR]) (''ABC'' @ [ETB_CHAR, ETB_CHAR])"
    by (auto simp: iteration_of_def ETB_CHAR_def)
  moreover have "map_option (\<lambda>m. m ETB_CHAR)
      (construct (ETB_CHAR # ''ABC'') (ETB_CHAR # ETB_CHAR # ''ABC'')) = Some (Some ''110'')"
    by code_simp
  moreover have "map_option (\<lambda>m. m ETB_CHAR)
      (construct (''ABC'' @ [ETB_CHAR]) (''ABC'' @ [ETB_CHAR, ETB_CHAR])) = Some (Some ''11'')"
    by code_simp
  ultimately show ?thesis
    by auto
qed

text \<open>
  C4, amended: two corpora in which the sentinel occurs at most once and that have the
  same characters with the same frequencies give the same trie and the same encoding
  map, whatever the two iteration orders of the constructor.
\<close>

theorem encoding_map_deterministic:
  assumes "mset corpus1 = mset corpus2" "count_list corpus1 ETB_CHAR \<le> 1"
    "iteration_of chars1 corpus1" "iteration_of chars2 corpus2"
  shows "\<exists>self1 self2. init chars1 corpus1 = Some self1 \<and> init chars2 corpus2 = Some self2
    \<and> get_encoding_map self1 = get_encoding_map self2
    \<and> trie_root self1 = trie_root self2"
proof (cases "corpus1 = []")
  case True
  with assms(1) have "corpus2 = []" by simp
  with True show ?thesis
    by (simp add: init_empty)
next
  case False
  with assms(1) have ne2: "corpus2 \<noteq> []" by auto
  let ?etb = "HuffmanNode ETB_CHAR 1 None None"
  let ?q1 = "put_leaves (put [] ?etb) chars1 corpus1"
  let ?q2 = "put_leaves (put [] ?etb) chars2 corpus2"
  from assms(1) have c: "count corpus1 = count corpus2"
    by (auto simp: count_def fun_eq_iff count_mset [symmetric])
  from assms have "mset chars1 = mset chars2"
    by (metis iteration_of_def mset_eq_setD set_eq_iff_mset_eq_distinct)
  then have m: "mset ?q1 = mset ?q2"
    by (simp add: mset_put_leaves c)
  have h: "heap_inv ?q1" "heap_inv ?q2"
    by (simp_all add: heap_inv_put_leaves heap_inv_put heap_inv_Nil)
  from queue_inv_init [OF assms(3,2)] have d: "queue_inv ?q1" .
  from grow_trie_deterministic [OF h m d]
  have g: "map_option fst (grow_trie ?q1) = map_option fst (grow_trie ?q2)" .
  from init_returns obtain self1 where s1: "init chars1 corpus1 = Some self1" by blast
  from init_returns obtain self2 where s2: "init chars2 corpus2 = Some self2" by blast
  from s1 False obtain root1 q1' where r1: "grow_trie ?q1 = Some (root1, q1')"
    "encoding_map self1 = create_encoding_map (Some root1) []" "trie_root self1 = Some root1"
    by (auto simp: init_def Let_def split: option.splits)
  from s2 ne2 obtain root2 q2' where r2: "grow_trie ?q2 = Some (root2, q2')"
    "encoding_map self2 = create_encoding_map (Some root2) []" "trie_root self2 = Some root2"
    by (auto simp: init_def Let_def split: option.splits)
  from g r1(1) r2(1) have "root1 = root2" by simp
  with s1 s2 r1 r2 show ?thesis
    by (simp add: get_encoding_map_def)
qed

theorem encoding_map_deterministic_witness:
  "mset (ETB_CHAR # ''ABB'') = mset (''BAB'' @ [ETB_CHAR])
   \<and> count_list (ETB_CHAR # ''ABB'') ETB_CHAR \<le> 1
   \<and> iteration_of (ETB_CHAR # ''AB'') (ETB_CHAR # ''ABB'')
   \<and> iteration_of (''BA'' @ [ETB_CHAR]) (''BAB'' @ [ETB_CHAR])
   \<and> (\<exists>self1 self2. init (ETB_CHAR # ''AB'') (ETB_CHAR # ''ABB'') = Some self1
        \<and> init (''BA'' @ [ETB_CHAR]) (''BAB'' @ [ETB_CHAR]) = Some self2
        \<and> get_encoding_map self1 = get_encoding_map self2
        \<and> trie_root self1 = trie_root self2)"
proof -
  have m: "mset (ETB_CHAR # ''ABB'') = mset (''BAB'' @ [ETB_CHAR])"
    by simp
  have e: "count_list (ETB_CHAR # ''ABB'') ETB_CHAR \<le> 1"
    by (simp add: ETB_CHAR_def)
  have i: "iteration_of (ETB_CHAR # ''AB'') (ETB_CHAR # ''ABB'')"
    "iteration_of (''BA'' @ [ETB_CHAR]) (''BAB'' @ [ETB_CHAR])"
    by (auto simp: iteration_of_def ETB_CHAR_def)
  from encoding_map_deterministic [OF m e i] m e i show ?thesis
    by blast
qed

end
